theory Spec2Isabelle
  imports Main
begin

section \<open>Data model\<close>

text \<open>
  The class \<open>WeightedEdge\<close> of \<open>graph_works.cpp\<close>: two vertices and a weight, all
  of C++ type \<open>int\<close>, with its constructor \<open>WeightedEdge(setU, setV, setW)\<close> and the
  three accessors.
\<close>

datatype WeightedEdge = WeightedEdge (getU: int) (getV: int) (getW: int)

text \<open>
  Conditions under which a run does not complete normally.
  \<^item> \<open>InvalidCombinationSize\<close>: the message "Error: combination count higher than or
    equal to input count." followed by \<open>return\<close>.
  \<^item> \<open>IndexOutOfRange\<close>: an element of an array or vector is read or written at an
    index that is not below its length (undefined behaviour in C++).
  \<^item> \<open>SignedOverflow\<close>: an \<open>int\<close> computation leaves the range of a 32-bit \<open>int\<close>
    (undefined behaviour in C++).
\<close>

datatype error = InvalidCombinationSize | IndexOutOfRange | SignedOverflow

definition INT_MAX :: int where
  "INT_MAX = 2147483647"

definition INT_MIN :: int where
  "INT_MIN = - 2147483648"

section \<open>Reading the graph: \<open>create_graph\<close>\<close>

text \<open>
  The input file holds the vertex count followed by the entries of the weight matrix,
  line by line. \<open>vertexCount\<close> is the value that \<open>inputFile >> vertexCount\<close>
  delivers, and \<open>inputFile j i\<close> is the value that \<open>inputFile >> k\<close> delivers in the
  iteration \<open>j\<close> of the outer loop and \<open>i\<close> of the inner loop, that is the entry in
  row \<open>j\<close> and column \<open>i\<close> of the matrix. The vertex count is taken to fit an \<open>int\<close>,
  so that the conversion of the loop counters (\<open>unsigned int\<close>) to the constructor's
  \<open>int\<close> arguments keeps their values.

  The inner loop of row \<open>j\<close>: each entry with \<open>i \<ge> j\<close> and \<open>k \<noteq> 0\<close> is pushed
  onto \<open>G\<close> as \<open>WeightedEdge(i, j, k)\<close>.
\<close>

definition create_graph_row ::
  "nat \<Rightarrow> (nat \<Rightarrow> nat \<Rightarrow> int) \<Rightarrow> nat \<Rightarrow> WeightedEdge list \<Rightarrow> WeightedEdge list" where
  "create_graph_row vertexCount inputFile j G =
     fold (\<lambda>i G. let k = inputFile j i in
                  if i \<ge> j \<and> k \<noteq> 0 then G @ [WeightedEdge (int i) (int j) k] else G)
          [0..<vertexCount] G"

definition create_graph ::
  "nat \<Rightarrow> (nat \<Rightarrow> nat \<Rightarrow> int) \<Rightarrow> WeightedEdge list \<Rightarrow> WeightedEdge list" where
  "create_graph vertexCount inputFile G =
     fold (create_graph_row vertexCount inputFile) [0..<vertexCount] G"

section \<open>Prim's algorithm: \<open>min_incident\<close> and \<open>spanning_tree\<close>\<close>

text \<open>
  The inner loop of \<open>min_incident\<close> over \<open>vT\<close>: it sets \<open>uMatch\<close> (\<open>vMatch\<close>) when
  the first (second) vertex of the edge occurs in \<open>vT\<close>.
\<close>

definition match_loop :: "WeightedEdge \<Rightarrow> int list \<Rightarrow> bool \<times> bool" where
  "match_loop e vT =
     fold (\<lambda>x (uMatch, vMatch).
             (if getU e = x then True else uMatch, if getV e = x then True else vMatch))
          vT (False, False)"

text \<open>
  One iteration of the outer loop of \<open>min_incident\<close> on the variables
  \<open>(minIndex, minWeight, result_uMatch)\<close>. The test \<open>uMatch+vMatch == 1\<close> adds the two
  booleans as integers.
\<close>

definition min_incident_step ::
  "WeightedEdge list \<Rightarrow> int list \<Rightarrow> nat \<Rightarrow> nat \<times> int \<times> bool \<Rightarrow> nat \<times> int \<times> bool" where
  "min_incident_step G vT i s =
     (case s of (minIndex, minWeight, result_uMatch) \<Rightarrow>
        (case match_loop (G ! i) vT of (uMatch, vMatch) \<Rightarrow>
           if (of_bool uMatch + of_bool vMatch = (1::int)) \<and> getW (G ! i) < minWeight
           then (i, getW (G ! i), uMatch)
           else (minIndex, minWeight, result_uMatch)))"

text \<open>
  \<open>min_incident\<close> returns the index found and the vector \<open>vT\<close> after the
  \<open>push_back\<close>. Reading \<open>G[minIndex]\<close> needs \<open>minIndex\<close> to be below \<open>G.size()\<close>;
  this fails exactly when \<open>G\<close> is empty.
\<close>

definition min_incident :: "WeightedEdge list \<Rightarrow> int list \<Rightarrow> error + (nat \<times> int list)" where
  "min_incident G vT =
     (case fold (min_incident_step G vT) [0..<length G] (0, INT_MAX, False) of
        (minIndex, minWeight, result_uMatch) \<Rightarrow>
          if minIndex < length G
          then Inr (minIndex,
                    vT @ [if result_uMatch then getV (G ! minIndex) else getU (G ! minIndex)])
          else Inl IndexOutOfRange)"

text \<open>
  The \<open>do ... while\<close> loop of \<open>spanning_tree\<close>. \<open>bound\<close> is the value of
  \<open>vertexCount-1\<close>, against which \<open>T.size()\<close> is compared. The loop returns the tree
  \<open>T\<close>, \<open>totalWeight\<close> and the final \<open>vT\<close>.
\<close>

function prim_loop ::
  "nat \<Rightarrow> WeightedEdge list \<Rightarrow> int list \<Rightarrow> WeightedEdge list \<Rightarrow> int
     \<Rightarrow> error + (WeightedEdge list \<times> int \<times> int list)" where
  "prim_loop bound G vT T totalWeight =
     (case min_incident G vT of
        Inl e \<Rightarrow> Inl e
      | Inr (min_incident_index, vT') \<Rightarrow>
          if totalWeight + getW (G ! min_incident_index) < INT_MIN
             \<or> INT_MAX < totalWeight + getW (G ! min_incident_index)
          then Inl SignedOverflow
          else if length (T @ [G ! min_incident_index]) < bound
          then prim_loop bound G vT' (T @ [G ! min_incident_index])
                 (totalWeight + getW (G ! min_incident_index))
          else Inr (T @ [G ! min_incident_index],
                    totalWeight + getW (G ! min_incident_index), vT'))"
  by pat_completeness auto
termination
  by (relation "measure (\<lambda>(bound, G, vT, T, totalWeight). bound - length T)") auto

text \<open>
  \<open>spanning_tree\<close> after the file has been opened: it builds \<open>G\<close>, seeds \<open>vT\<close> with
  \<open>G[0].getU()\<close> (out of range when \<open>G\<close> is empty) and runs the loop.
  \<open>vertexCount\<close> is an \<open>unsigned int\<close>, so \<open>vertexCount-1\<close> wraps around at \<open>2^32\<close>.
\<close>

definition spanning_tree ::
  "nat \<Rightarrow> (nat \<Rightarrow> nat \<Rightarrow> int) \<Rightarrow> error + (WeightedEdge list \<times> int \<times> int list)" where
  "spanning_tree vertexCount inputFile =
     (let G = create_graph vertexCount inputFile [] in
      if G = [] then Inl IndexOutOfRange
      else prim_loop ((vertexCount + 2 ^ 32 - 1) mod 2 ^ 32) G [getU (G ! 0)] [] 0)"

text \<open>
  \<open>triangle_number\<close> computes \<open>k * (k+1) / 2\<close> on \<open>int\<close>. The product is never
  negative, so the truncating division of C++ is \<open>div\<close>; it stays within a 32-bit
  \<open>int\<close> for \<open>0 \<le> k \<le> 46340\<close>.
\<close>

definition triangle_number :: "int \<Rightarrow> int" where
  "triangle_number k = (k * (k + 1)) div 2"

section \<open>Writing one graph: \<open>write_graph\<close>\<close>

text \<open>
  The first loop of \<open>write_graph\<close> fills \<open>edgeSet\<close>: in iteration \<open>i\<close> it reads
  \<open>indices[k]\<close> and compares it with \<open>i\<close>. \<open>write_graph\<close> does not know the length
  of \<open>indices\<close>; the model does, and a read at or past the length is the error
  \<open>IndexOutOfRange\<close>.
\<close>

fun edge_set_loop :: "int list \<Rightarrow> nat list \<Rightarrow> nat \<Rightarrow> bool list \<Rightarrow> error + bool list" where
  "edge_set_loop indices [] k edgeSet = Inr edgeSet"
| "edge_set_loop indices (i # rest) k edgeSet =
     (if k < length indices
      then edge_set_loop indices rest (if int i = indices ! k then k + 1 else k)
             (edgeSet[i := (int i = indices ! k)])
      else Inl IndexOutOfRange)"

text \<open>
  The loops that fill the matrix and write it. The state of the inner loop is the
  matrix, the counter \<open>j\<close> and the line written so far; \<open>adjMatrix[i][k]\<close> is the
  element \<open>k\<close> of the row \<open>i\<close>.
\<close>

definition write_entry ::
  "bool list \<Rightarrow> nat \<Rightarrow> nat \<Rightarrow> int list list \<times> nat \<times> int list \<Rightarrow> int list list \<times> nat \<times> int list" where
  "write_entry edgeSet k i s =
     (case s of (adjMatrix, j, line) \<Rightarrow>
        if i \<ge> k + 1
        then (let adjMatrix1 = adjMatrix[i := (adjMatrix ! i)[k := of_bool (edgeSet ! j)]];
                  adjMatrix2 = adjMatrix1[k := (adjMatrix1 ! k)[i := of_bool (edgeSet ! j)]]
              in (adjMatrix2, j + 1, line @ [adjMatrix2 ! i ! k]))
        else (adjMatrix, j, line @ [adjMatrix ! i ! k]))"

definition write_line ::
  "bool list \<Rightarrow> nat \<Rightarrow> nat \<Rightarrow> int list list \<times> nat \<times> int list list
     \<Rightarrow> int list list \<times> nat \<times> int list list" where
  "write_line edgeSet VERTEX k s =
     (case s of (adjMatrix, j, outfile) \<Rightarrow>
        (case fold (write_entry edgeSet k) [0..<VERTEX] (adjMatrix, j, []) of
           (adjMatrix', j', line) \<Rightarrow> (adjMatrix', j', outfile @ [line])))"

text \<open>
  \<open>write_graph\<close> returns the matrix in memory at the end and the lines of digits
  appended to the file (after the line with the vertex count).
\<close>

definition write_graph :: "int list \<Rightarrow> int \<Rightarrow> error + (int list list \<times> int list list)" where
  "write_graph indices VERTEX =
     (let EDGES = triangle_number (VERTEX - 1) in
      case edge_set_loop indices [0..<nat EDGES] 0 (replicate (nat EDGES) False) of
        Inl e \<Rightarrow> Inl e
      | Inr edgeSet \<Rightarrow>
          (case fold (write_line edgeSet (nat VERTEX)) [0..<nat VERTEX]
                  (replicate (nat VERTEX) (replicate (nat VERTEX) 0), 0, []) of
             (adjMatrix, j, outfile) \<Rightarrow> Inr (adjMatrix, outfile)))"

section \<open>The combination enumerator: \<open>make_combinations\<close> and \<open>make_graphs\<close>\<close>

text \<open>
  \<open>make_combinations\<close> prints each array with \<open>print_permu\<close>; \<open>make_graphs\<close> hands
  each array to \<open>write_graph\<close>. A run is modelled by the list of arrays it has put
  out, in order: the arrays printed, or the arrays handed to \<open>write_graph\<close>. A run that
  stops on an error keeps that list as it is at the error.
\<close>

type_synonym 'a outcome = "(error \<times> int list list) + 'a"

text \<open>
  \<open>print_permu(indices, count)\<close> prints nothing when \<open>count\<close> is zero, else the
  first \<open>count\<close> elements on one line.
\<close>

definition print_permu :: "int list \<Rightarrow> int \<Rightarrow> int list list \<Rightarrow> int list list" where
  "print_permu indices count cout =
     (if count = 0 then cout else cout @ [take (nat count) indices])"

text \<open>
  The call \<open>write_graph(ordinals, VERTEX_COUNT)\<close> inside \<open>make_graphs\<close>: the array
  is recorded as handed over, and the run goes on only if \<open>write_graph\<close> completes; an
  error of \<open>write_graph\<close> ends the run.
\<close>

definition write_graph_call :: "int \<Rightarrow> int list \<Rightarrow> int list list \<Rightarrow> (int list list) outcome" where
  "write_graph_call VERTEX_COUNT ordinals calls =
     (case write_graph ordinals VERTEX_COUNT of
        Inl e \<Rightarrow> Inl (e, calls @ [ordinals])
      | Inr written \<Rightarrow> Inr (calls @ [ordinals]))"

text \<open>
  The loops of the two functions have the same text except for the test of the first
  inner loop (\<open>indices[k] != k\<close> in \<open>make_combinations\<close>, \<open>ordinals[k] > k\<close> in
  \<open>make_graphs\<close>) and for the way an array is put out. The model takes the test
  (\<open>away\<close>) and the output action (\<open>emit\<close>, which may fail) as parameters. The
  array is a list whose length is the declared length; the cursor \<open>k\<close> only ever
  counts up from zero.

  "Bring k back to its home position": the first inner loop. With the test \<open>!=\<close> it
  does not end when the element is below \<open>k\<close>; not returning is the value \<open>None\<close>.
\<close>

partial_function (option) bring_home ::
  "(int \<Rightarrow> int \<Rightarrow> bool) \<Rightarrow> (int list \<Rightarrow> int list list \<Rightarrow> (int list list) outcome)
     \<Rightarrow> int list \<Rightarrow> nat \<Rightarrow> int list list \<Rightarrow> (int list \<times> int list list) outcome option" where
  "bring_home away emit indices k out =
     (if k < length indices
      then (if away (indices ! k) (int k)
            then (case emit (indices[k := indices ! k - 1]) out of
                    Inl e \<Rightarrow> Some (Inl e)
                  | Inr out' \<Rightarrow> bring_home away emit (indices[k := indices ! k - 1]) k out')
            else Some (Inr (indices, out)))
      else Some (Inl (IndexOutOfRange, out)))"

declare bring_home.simps [code]

text \<open>
  "find the next k that is not home": \<open>do { k++; } while (indices[k] == k && k != count)\<close>.
  The element is read before \<open>k\<close> is compared with the count.
\<close>

function find_next :: "int \<Rightarrow> int list \<Rightarrow> nat \<Rightarrow> error + nat" where
  "find_next count indices k =
     (if k + 1 < length indices
      then (if indices ! (k + 1) = int (k + 1) \<and> int (k + 1) \<noteq> count
            then find_next count indices (k + 1)
            else Inr (k + 1))
      else Inl IndexOutOfRange)"
  by pat_completeness auto
termination
  by (relation "measure (\<lambda>(count, indices, k). length indices - k)") auto

text \<open>
  "Bring up all the children": \<open>for (i = 0; i < k; i++) indices[i] = indices[k]-(k-i)\<close>.
\<close>

definition bring_up_children :: "int list \<Rightarrow> nat \<Rightarrow> int list" where
  "bring_up_children indices k =
     fold (\<lambda>i a. a[i := a ! k - (int k - int i)]) [0..<k] indices"

text \<open>
  The outer \<open>do ... while\<close> loop. It returns the arrays put out.
\<close>

partial_function (option) permutation_loop ::
  "(int \<Rightarrow> int \<Rightarrow> bool) \<Rightarrow> (int list \<Rightarrow> int list list \<Rightarrow> (int list list) outcome)
     \<Rightarrow> int \<Rightarrow> int list \<Rightarrow> nat \<Rightarrow> int list list \<Rightarrow> (int list list) outcome option" where
  "permutation_loop away emit count indices k out =
     Option.bind (bring_home away emit indices k out) (\<lambda>r.
       case r of
         Inl e \<Rightarrow> Some (Inl e)
       | Inr (indices1, out1) \<Rightarrow>
           if count = 1 then Some (Inr out1)
           else (case find_next count indices1 k of
                   Inl e \<Rightarrow> Some (Inl (e, out1))
                 | Inr k2 \<Rightarrow>
                     let indices2 = indices1[k2 := indices1 ! k2 - 1];
                         indices3 = (if indices2 ! k2 \<noteq> int k2
                                     then bring_up_children indices2 k2 else indices2);
                         k3 = (if indices2 ! k2 \<noteq> int k2 then 0 else k2)
                     in (case emit indices3 out1 of
                           Inl e \<Rightarrow> Some (Inl e)
                         | Inr out3 \<Rightarrow>
                             if int k3 \<noteq> count - 1
                             then permutation_loop away emit count indices3 k3 out3
                             else if k3 < length indices3
                             then (if indices3 ! k3 \<noteq> int k3
                                   then permutation_loop away emit count indices3 k3 out3
                                   else Some (Inr out3))
                             else Some (Inl (IndexOutOfRange, out3)))))"

declare permutation_loop.simps [code]

text \<open>
  The initialisation loop: \<open>indices[count-1-i] = input_count-i-1\<close> for \<open>i\<close> from \<open>0\<close>
  below \<open>count\<close>. The array is declared with \<open>count\<close> elements (none when
  \<open>count\<close> is not positive); the loop overwrites every element, so the content
  before it does not matter and is taken to be zero.
\<close>

definition initial_indices :: "int \<Rightarrow> int \<Rightarrow> int list" where
  "initial_indices input_count count =
     fold (\<lambda>i a. a[nat (count - 1 - int i) := input_count - int i - 1])
          [0..<nat count] (replicate (nat count) 0)"

text \<open>
  \<open>make_combinations\<close>: printing never fails.
\<close>

definition make_combinations :: "int \<Rightarrow> int \<Rightarrow> (int list list) outcome option" where
  "make_combinations input_count combination_count =
     (if input_count \<le> combination_count then Some (Inl (InvalidCombinationSize, []))
      else permutation_loop (\<lambda>x y. x \<noteq> y)
             (\<lambda>indices cout. Inr (print_permu indices combination_count cout))
             combination_count
             (initial_indices input_count combination_count) 0
             (print_permu (initial_indices input_count combination_count)
                combination_count []))"

text \<open>
  \<open>make_graphs\<close>: the size check, the first call of \<open>write_graph\<close>, the return when
  all edges are chosen, and the loop, each array going through \<open>write_graph\<close>.
\<close>

definition make_graphs :: "int \<Rightarrow> int \<Rightarrow> (int list list) outcome option" where
  "make_graphs VERTEX_COUNT EDGE_COUNT =
     (let maxEdgeCount = triangle_number (VERTEX_COUNT - 1) in
      if maxEdgeCount < EDGE_COUNT then Some (Inl (InvalidCombinationSize, []))
      else (case write_graph_call VERTEX_COUNT (initial_indices maxEdgeCount EDGE_COUNT) [] of
              Inl e \<Rightarrow> Some (Inl e)
            | Inr calls \<Rightarrow>
                if maxEdgeCount = EDGE_COUNT then Some (Inr calls)
                else permutation_loop (\<lambda>x y. x > y) (write_graph_call VERTEX_COUNT)
                       EDGE_COUNT (initial_indices maxEdgeCount EDGE_COUNT) 0 calls))"

section \<open>Notions used to state the properties\<close>

subsection \<open>Matrix entries and graphs\<close>

text \<open>
  The entries \<open>(row, column)\<close> of the matrix that are not zero and lie in the half
  with column \<open>\<ge>\<close> row (\<open>upper_entries\<close>) or in the half with row \<open>\<ge>\<close> column
  (\<open>lower_entries\<close>), line by line; and the edge that \<open>create_graph\<close> makes of an
  entry.
\<close>

definition upper_entries :: "nat \<Rightarrow> (nat \<Rightarrow> nat \<Rightarrow> int) \<Rightarrow> (nat \<times> nat) list" where
  "upper_entries vertexCount inputFile =
     concat (map (\<lambda>j. map (Pair j)
                          (filter (\<lambda>i. j \<le> i \<and> inputFile j i \<noteq> 0) [0..<vertexCount]))
                 [0..<vertexCount])"

definition lower_entries :: "nat \<Rightarrow> (nat \<Rightarrow> nat \<Rightarrow> int) \<Rightarrow> (nat \<times> nat) list" where
  "lower_entries vertexCount inputFile =
     concat (map (\<lambda>j. map (Pair j)
                          (filter (\<lambda>i. i \<le> j \<and> inputFile j i \<noteq> 0) [0..<vertexCount]))
                 [0..<vertexCount])"

definition edge_of_entry :: "(nat \<Rightarrow> nat \<Rightarrow> int) \<Rightarrow> nat \<times> nat \<Rightarrow> WeightedEdge" where
  "edge_of_entry inputFile e =
     WeightedEdge (int (snd e)) (int (fst e)) (inputFile (fst e) (snd e))"

definition symmetric_input :: "nat \<Rightarrow> (nat \<Rightarrow> nat \<Rightarrow> int) \<Rightarrow> bool" where
  "symmetric_input vertexCount inputFile \<longleftrightarrow>
     (\<forall>a<vertexCount. \<forall>b<vertexCount. inputFile a b = inputFile b a)"

text \<open>
  An edge is a boundary edge of the frontier \<open>vT\<close> when exactly one of its two
  vertices is in \<open>vT\<close>. Two vertices are adjacent in \<open>G\<close> when an edge of \<open>G\<close>
  joins them, in either order.
\<close>

definition boundary_edge :: "int list \<Rightarrow> WeightedEdge \<Rightarrow> bool" where
  "boundary_edge vT e \<longleftrightarrow> (getU e \<in> set vT) \<noteq> (getV e \<in> set vT)"

definition adjacent :: "WeightedEdge list \<Rightarrow> (int \<times> int) set" where
  "adjacent G = {(a, b). \<exists>e\<in>set G. (getU e = a \<and> getV e = b) \<or> (getU e = b \<and> getV e = a)}"

text \<open>
  The state of the scan of \<open>min_incident\<close> after the edges below \<open>t\<close>: either no
  boundary edge lighter than \<open>INT_MAX\<close> was met and the variables have their initial
  values, or \<open>minIndex\<close> is the first lightest boundary edge met.
\<close>

definition scan_inv :: "WeightedEdge list \<Rightarrow> int list \<Rightarrow> nat \<Rightarrow> nat \<times> int \<times> bool \<Rightarrow> bool" where
  "scan_inv G vT t s \<longleftrightarrow>
     (case s of (minIndex, minWeight, result_uMatch) \<Rightarrow>
        (minIndex = 0 \<and> minWeight = INT_MAX \<and> \<not> result_uMatch \<and>
         (\<forall>j<t. boundary_edge vT (G ! j) \<longrightarrow> INT_MAX \<le> getW (G ! j))) \<or>
        (minIndex < t \<and> boundary_edge vT (G ! minIndex) \<and>
         minWeight = getW (G ! minIndex) \<and> minWeight < INT_MAX \<and>
         result_uMatch = (getU (G ! minIndex) \<in> set vT) \<and>
         (\<forall>j<t. boundary_edge vT (G ! j) \<longrightarrow> minWeight \<le> getW (G ! j)) \<and>
         (\<forall>j<minIndex. boundary_edge vT (G ! j) \<longrightarrow> minWeight < getW (G ! j))))"

subsection \<open>Concrete inputs\<close>

text \<open>
  The graph of the specification's example (vertices 0 to 3, total weight 6), a
  matrix that is not symmetric, the graph with one vertex and no edge, the graph with
  one vertex and a loop, and the graph with two vertices joined by an edge of the
  largest \<open>int\<close> weight.
\<close>

definition example_input :: "nat \<Rightarrow> nat \<Rightarrow> int" where
  "example_input j i =
     (if j < 4 \<and> i < 4
      then [[0, 1, 4, 0], [1, 0, 2, 5], [4, 2, 0, 3], [0, 5, 3, 0]] ! j ! i
      else 0)"

definition asymmetric_input :: "nat \<Rightarrow> nat \<Rightarrow> int" where
  "asymmetric_input j i = (if j = 0 \<and> i = 1 then 3 else 0)"

definition single_vertex_input :: "nat \<Rightarrow> nat \<Rightarrow> int" where
  "single_vertex_input j i = 0"

definition self_loop_input :: "nat \<Rightarrow> nat \<Rightarrow> int" where
  "self_loop_input j i = (if j = 0 \<and> i = 0 then 5 else 0)"

definition max_weight_input :: "nat \<Rightarrow> nat \<Rightarrow> int" where
  "max_weight_input j i =
     (if (j = 0 \<and> i = 1) \<or> (j = 1 \<and> i = 0) then 2147483647 else 0)"

subsection \<open>Combinations\<close>

text \<open>
  A combination of \<open>m\<close> out of \<open>n\<close> is an array of length \<open>m\<close>, strictly
  increasing, with elements in \<open>[0, n)\<close>. The largest is \<open>[n-m, ..., n-1]\<close>, the
  smallest \<open>[0, ..., m-1]\<close>.
\<close>

definition valid_combination :: "int \<Rightarrow> int \<Rightarrow> int list \<Rightarrow> bool" where
  "valid_combination n m c \<longleftrightarrow> length c = nat m \<and> sorted_wrt (<) c \<and> set c \<subseteq> {0..<n}"

definition max_combination :: "int \<Rightarrow> int \<Rightarrow> int list" where
  "max_combination n m = map (\<lambda>i. n - m + int i) [0..<nat m]"

definition min_combination :: "int \<Rightarrow> int list" where
  "min_combination m = map int [0..<nat m]"

text \<open>
  The colexicographic order compares two arrays from their last element down; the
  rank of an array in this order is given by the combinatorial number system.
\<close>

definition colex_less :: "int list \<Rightarrow> int list \<Rightarrow> bool" where
  "colex_less a b \<longleftrightarrow> ord_class.lexordp (rev a) (rev b)"

definition colex_rank :: "int list \<Rightarrow> nat" where
  "colex_rank c = (\<Sum>i<length c. nat (c ! i) choose Suc i)"

text \<open>
  The array that follows \<open>c\<close> when \<open>j\<close> is its lowest position not at home: position
  \<open>j\<close> goes down by one and the positions below are packed right under it.
\<close>

definition step_down :: "int list \<Rightarrow> nat \<Rightarrow> int list" where
  "step_down c j =
     map (\<lambda>i. if i \<le> j then c ! j - 1 - (int j - int i) else c ! i) [0..<length c]"

definition one_down :: "int \<Rightarrow> int \<Rightarrow> int list \<Rightarrow> int list \<Rightarrow> bool" where
  "one_down n m a b \<longleftrightarrow>
     valid_combination n m b \<and> colex_rank b + 1 = colex_rank a \<and> colex_less b a"

text \<open>
  The state at the head of the outer loop: the array is a combination, the positions
  below the cursor are at home, the cursor's position is at home unless the cursor is
  zero, and some position above the cursor is not at home.
\<close>

definition loop_inv :: "int \<Rightarrow> int \<Rightarrow> int list \<Rightarrow> nat \<Rightarrow> bool" where
  "loop_inv n m c k \<longleftrightarrow>
     valid_combination n m c \<and> k < length c \<and> (\<forall>i<k. c ! i = int i) \<and>
     (0 < k \<longrightarrow> c ! k = int k) \<and> (\<exists>j. k < j \<and> j < length c \<and> c ! j \<noteq> int j)"

text \<open>
  A full run: it starts with the largest combination, ends with the smallest, and each
  array is a combination whose rank is one below the rank of the array before it.
\<close>

definition full_run :: "int \<Rightarrow> int \<Rightarrow> int list list \<Rightarrow> bool" where
  "full_run n m ys \<longleftrightarrow>
     ys \<noteq> [] \<and> hd ys = max_combination n m \<and> last ys = min_combination m \<and>
     successively (one_down n m) ys"

text \<open>
  What the run is to deliver: \<open>C(n, m)\<close> arrays, each strictly increasing of length
  \<open>m\<close> with elements in \<open>[0, n)\<close>, and every \<open>m\<close>-subset of \<open>[0, n)\<close> at exactly one
  position of the run.
\<close>

definition enumerates_combinations :: "int \<Rightarrow> int \<Rightarrow> int list list \<Rightarrow> bool" where
  "enumerates_combinations n m ys \<longleftrightarrow>
     length ys = nat n choose nat m \<and>
     (\<forall>c\<in>set ys. length c = nat m \<and> sorted_wrt (<) c \<and> set c \<subseteq> {0..<n}) \<and>
     (\<forall>K. K \<subseteq> {0..<n} \<and> card K = nat m \<longrightarrow> (\<exists>!i. i < length ys \<and> set (ys ! i) = K))"

definition decreasing_run :: "int \<Rightarrow> int \<Rightarrow> int list list \<Rightarrow> bool" where
  "decreasing_run n m ys \<longleftrightarrow>
     ys \<noteq> [] \<and> hd ys = map (\<lambda>i. n - m + int i) [0..<nat m] \<and>
     last ys = map int [0..<nat m] \<and> sorted_wrt (\<lambda>a b. colex_less b a) ys"


section \<open>The graph reader\<close>

lemma create_graph_row_fold:
  "fold (\<lambda>i G. let k = M j i in
                  if i \<ge> j \<and> k \<noteq> 0 then G @ [WeightedEdge (int i) (int j) k] else G) xs G
   = G @ map (edge_of_entry M) (map (Pair j) (filter (\<lambda>i. j \<le> i \<and> M j i \<noteq> 0) xs))"
  by (induction xs arbitrary: G) (simp_all add: edge_of_entry_def Let_def)

lemma create_graph_row_eq:
  "create_graph_row V M j G
   = G @ map (edge_of_entry M) (map (Pair j) (filter (\<lambda>i. j \<le> i \<and> M j i \<noteq> 0) [0..<V]))"
  unfolding create_graph_row_def by (rule create_graph_row_fold)

lemma create_graph_fold:
  "fold (create_graph_row V M) js G
   = G @ map (edge_of_entry M)
           (concat (map (\<lambda>j. map (Pair j) (filter (\<lambda>i. j \<le> i \<and> M j i \<noteq> 0) [0..<V])) js))"
  by (induction js arbitrary: G) (simp_all add: create_graph_row_eq)

lemma create_graph_eq:
  "create_graph V M G = G @ map (edge_of_entry M) (upper_entries V M)"
  unfolding create_graph_def upper_entries_def by (rule create_graph_fold)

lemma set_upper_entries:
  "set (upper_entries V M) = {(j, i). j \<le> i \<and> i < V \<and> M j i \<noteq> 0}"
  by (fastforce simp: upper_entries_def)

lemma distinct_entries_rows:
  "distinct js \<Longrightarrow> distinct xs \<Longrightarrow>
   distinct (concat (map (\<lambda>j. map (Pair j) (filter (P j) xs)) js))"
  by (induction js) (auto simp: distinct_map inj_on_def)

lemma distinct_upper_entries: "distinct (upper_entries V M)"
  unfolding upper_entries_def by (rule distinct_entries_rows) simp_all


section \<open>The search for the minimum incident edge\<close>

lemma match_loop_fold:
  "fold (\<lambda>x (uMatch, vMatch).
             (if getU e = x then True else uMatch, if getV e = x then True else vMatch))
        vT (a, b)
   = (a \<or> getU e \<in> set vT, b \<or> getV e \<in> set vT)"
  by (induction vT arbitrary: a b) auto

lemma match_loop_eq: "match_loop e vT = (getU e \<in> set vT, getV e \<in> set vT)"
  by (simp add: match_loop_def match_loop_fold)

lemma min_incident_step_no_boundary:
  "\<not> boundary_edge vT (G ! i) \<Longrightarrow> min_incident_step G vT i s = s"
  by (cases s) (auto simp: min_incident_step_def match_loop_eq boundary_edge_def)

lemma min_incident_fold_no_boundary:
  "(\<And>i. i \<in> set xs \<Longrightarrow> \<not> boundary_edge vT (G ! i)) \<Longrightarrow>
   fold (min_incident_step G vT) xs s = s"
  by (induction xs) (simp_all add: min_incident_step_no_boundary)


text \<open>
  When some boundary edge is lighter than \<open>INT_MAX\<close>, \<open>min_incident\<close> returns the
  first boundary edge of least weight and appends its vertex outside the frontier.
\<close>

lemma min_incident_step_eq:
  "min_incident_step G vT i (minIndex, minWeight, result_uMatch) =
     (if boundary_edge vT (G ! i) \<and> getW (G ! i) < minWeight
      then (i, getW (G ! i), getU (G ! i) \<in> set vT)
      else (minIndex, minWeight, result_uMatch))"
  by (auto simp: min_incident_step_def match_loop_eq boundary_edge_def)

lemma scan_inv_step:
  assumes "scan_inv G vT t s"
  shows "scan_inv G vT (Suc t) (min_incident_step G vT t s)"
proof (cases s)
  case (fields minIndex minWeight result_uMatch)
  show ?thesis
  proof (cases "boundary_edge vT (G ! t) \<and> getW (G ! t) < minWeight")
    case True
    have "minWeight \<le> INT_MAX"
      using assms by (auto simp: scan_inv_def fields)
    moreover have "\<forall>j<t. boundary_edge vT (G ! j) \<longrightarrow> minWeight \<le> getW (G ! j)"
      using assms by (auto simp: scan_inv_def fields)
    ultimately show ?thesis
      using True unfolding fields min_incident_step_eq scan_inv_def
      by (auto simp: less_Suc_eq)
  next
    case False
    then show ?thesis
      using assms unfolding fields min_incident_step_eq scan_inv_def
      by (auto simp: less_Suc_eq)
  qed
qed

lemma scan_inv_fold:
  "scan_inv G vT t (fold (min_incident_step G vT) [0..<t] (0, INT_MAX, False))"
proof (induction t)
  case 0
  show ?case by (simp add: scan_inv_def)
next
  case (Suc t)
  then show ?case by (simp add: scan_inv_step)
qed

lemma min_incident_selects:
  assumes "\<exists>e\<in>set G. boundary_edge vT e \<and> getW e < INT_MAX"
  shows "\<exists>i. i < length G \<and> boundary_edge vT (G ! i) \<and> getW (G ! i) < INT_MAX \<and>
            (\<forall>j<length G. boundary_edge vT (G ! j) \<longrightarrow> getW (G ! i) \<le> getW (G ! j)) \<and>
            (\<forall>j<i. boundary_edge vT (G ! j) \<longrightarrow> getW (G ! i) < getW (G ! j)) \<and>
            min_incident G vT
              = Inr (i, vT @ [if getU (G ! i) \<in> set vT then getV (G ! i) else getU (G ! i)])"
proof -
  obtain minIndex minWeight result_uMatch where
    s: "fold (min_incident_step G vT) [0..<length G] (0, INT_MAX, False)
        = (minIndex, minWeight, result_uMatch)"
    by (metis prod_cases3)
  from assms obtain j where j: "j < length G" "boundary_edge vT (G ! j)" "getW (G ! j) < INT_MAX"
    by (auto simp: in_set_conv_nth)
  have inv: "scan_inv G vT (length G) (minIndex, minWeight, result_uMatch)"
    using scan_inv_fold[of G vT "length G"] by (simp add: s)
  have "\<not> (\<forall>j<length G. boundary_edge vT (G ! j) \<longrightarrow> INT_MAX \<le> getW (G ! j))"
    using j by auto
  with inv have sel: "minIndex < length G" "boundary_edge vT (G ! minIndex)"
    "minWeight = getW (G ! minIndex)" "minWeight < INT_MAX"
    "result_uMatch = (getU (G ! minIndex) \<in> set vT)"
    "\<forall>j<length G. boundary_edge vT (G ! j) \<longrightarrow> minWeight \<le> getW (G ! j)"
    "\<forall>j<minIndex. boundary_edge vT (G ! j) \<longrightarrow> minWeight < getW (G ! j)"
    by (auto simp: scan_inv_def)
  have "min_incident G vT
        = Inr (minIndex, vT @ [if getU (G ! minIndex) \<in> set vT
                               then getV (G ! minIndex) else getU (G ! minIndex)])"
    using sel(1,5) by (simp add: min_incident_def s)
  with sel show ?thesis by (intro exI[of _ minIndex]) simp
qed

section \<open>The enumerator visits every combination\<close>

declare find_next.simps [simp del]

lemma hockey_stick:
  "j \<le> a \<Longrightarrow> (\<Sum>i<j. (a - j + i) choose Suc i) + 1 = a choose j"
proof (induction j arbitrary: a)
  case 0
  then show ?case by simp
next
  case (Suc j)
  then obtain b where a: "a = Suc b" and jb: "j \<le> b"
    by (cases a) auto
  have "(\<Sum>i<Suc j. (a - Suc j + i) choose Suc i) + 1
        = ((\<Sum>i<j. (b - j + i) choose Suc i) + 1) + (b choose Suc j)"
    using jb by (simp add: a)
  also have "\<dots> = (b choose j) + (b choose Suc j)"
    using Suc.IH[OF jb] by simp
  finally show ?case by (simp add: a)
qed

lemma initial_indices_nth:
  assumes "t \<le> m" "p < m" "length a = m"
  shows "length (fold (\<lambda>i a. a[nat (int m - 1 - int i) := n - int i - 1]) [0..<t] a) = m \<and>
         fold (\<lambda>i a. a[nat (int m - 1 - int i) := n - int i - 1]) [0..<t] a ! p
         = (if m - t \<le> p then n - int m + int p else a ! p)"
  using assms
proof (induction t)
  case 0
  then show ?case by simp
next
  case (Suc t)
  have idx: "nat (int m - 1 - int t) = m - 1 - t" by simp
  from Suc show ?case
    by (auto simp: idx nth_list_update)
qed

lemma initial_indices_eq:
  assumes "0 \<le> m"
  shows "initial_indices n m = max_combination n m"
proof -
  obtain M where M: "m = int M"
    using assms by (metis nonneg_int_cases)
  have nth: "length (initial_indices n m) = M \<and>
             initial_indices n m ! p = n - int M + int p" if "p < M" for p
    using initial_indices_nth[of M M p "replicate M 0" n] that
    by (simp add: initial_indices_def M)
  have len: "length (initial_indices n m) = M"
  proof (cases M)
    case 0
    then show ?thesis by (simp add: initial_indices_def M)
  next
    case (Suc q)
    then show ?thesis using nth[of 0] by simp
  qed
  show ?thesis
    unfolding M
    by (rule nth_equalityI) (simp_all add: len[unfolded M] nth[unfolded M] max_combination_def)
qed

lemma valid_length: "valid_combination n m c \<Longrightarrow> length c = nat m"
  by (simp add: valid_combination_def)

lemma valid_nth_less:
  "valid_combination n m c \<Longrightarrow> i < j \<Longrightarrow> j < length c \<Longrightarrow> c ! i < c ! j"
  by (simp add: valid_combination_def sorted_wrt_nth_less)

lemma valid_nth_range:
  "valid_combination n m c \<Longrightarrow> i < length c \<Longrightarrow> 0 \<le> c ! i \<and> c ! i < n"
proof -
  assume v: "valid_combination n m c" and i: "i < length c"
  from i have "c ! i \<in> set c" by simp
  with v show ?thesis by (auto simp: valid_combination_def)
qed

lemma valid_ge_index:
  "valid_combination n m c \<Longrightarrow> i < length c \<Longrightarrow> int i \<le> c ! i"
proof (induction i)
  case 0
  then show ?case using valid_nth_range[of n m c 0] by simp
next
  case (Suc i)
  then have "int i \<le> c ! i" by simp
  moreover have "c ! i < c ! Suc i"
    using Suc.prems by (intro valid_nth_less) auto
  ultimately show ?case by simp
qed

lemma valid_max_combination:
  assumes "0 \<le> m" "m \<le> n"
  shows "valid_combination n m (max_combination n m)"
  using assms
  by (auto simp: valid_combination_def max_combination_def sorted_wrt_map
        intro!: sorted_wrt_mono_rel[of _ "(<)"])

lemma all_home_min:
  assumes "length c = nat m" "\<And>i. i < length c \<Longrightarrow> c ! i = int i"
  shows "c = min_combination m"
  using assms by (intro nth_equalityI) (simp_all add: min_combination_def)

lemma step_down_nth:
  "i < length c \<Longrightarrow>
   step_down c j ! i = (if i \<le> j then c ! j - 1 - (int j - int i) else c ! i)"
  by (simp add: step_down_def)

lemma length_step_down [simp]: "length (step_down c j) = length c"
  by (simp add: step_down_def)

lemma valid_step_down:
  assumes v: "valid_combination n m c" and j: "j < length c" and gt: "int j < c ! j"
  shows "valid_combination n m (step_down c j)"
proof -
  have len: "length (step_down c j) = nat m"
    using v by (simp add: valid_length)
  have sorted: "sorted_wrt (<) (step_down c j)"
    unfolding sorted_wrt_iff_nth_less
  proof (intro allI impI)
    fix p q assume pq: "p < q" and q: "q < length (step_down c j)"
    then have q': "q < length c" and p': "p < length c" by simp_all
    show "step_down c j ! p < step_down c j ! q"
    proof (cases "q \<le> j")
      case True
      then show ?thesis using pq p' q' by (simp add: step_down_nth)
    next
      case False
      then have jq: "j < q" by simp
      have cjq: "c ! j < c ! q" using v jq q' by (rule valid_nth_less)
      show ?thesis
      proof (cases "p \<le> j")
        case True
        then show ?thesis using False cjq p' q' by (simp add: step_down_nth)
      next
        case False
        then show ?thesis
          using jq valid_nth_less[OF v pq q'] p' q' by (simp add: step_down_nth)
      qed
    qed
  qed
  have range: "set (step_down c j) \<subseteq> {0..<n}"
  proof
    fix x assume "x \<in> set (step_down c j)"
    then obtain p where p: "p < length c" and x: "x = step_down c j ! p"
      by (auto simp: in_set_conv_nth)
    show "x \<in> {0..<n}"
    proof (cases "p \<le> j")
      case True
      then show ?thesis
        using x p gt valid_nth_range[OF v j] by (simp add: step_down_nth)
    next
      case False
      then show ?thesis
        using x p valid_nth_range[OF v p] by (simp add: step_down_nth)
    qed
  qed
  from len sorted range show ?thesis by (simp add: valid_combination_def)
qed

lemma sum_split_at:
  fixes g :: "nat \<Rightarrow> nat"
  assumes "j < m"
  shows "(\<Sum>i<m. g i) = (\<Sum>i<j. g i) + g j + (\<Sum>i = Suc j..<m. g i)"
proof -
  have "(\<Sum>i<m. g i) = sum g {0..<j} + sum g {j..<m}"
    using assms by (simp add: lessThan_atLeast0 sum.atLeastLessThan_concat)
  also have "sum g {j..<m} = g j + sum g {Suc j..<m}"
    using assms by (simp add: sum.atLeast_Suc_lessThan)
  finally show ?thesis by (simp add: lessThan_atLeast0)
qed

lemma rank_step_down:
  assumes j: "j < length c" and gt: "int j < c ! j"
    and home: "\<And>i. i < j \<Longrightarrow> c ! i = int i"
  shows "colex_rank (step_down c j) + 1 = colex_rank c"
proof -
  define a where "a = nat (c ! j) - 1"
  have cj: "nat (c ! j) = Suc a" and ja: "j \<le> a"
    using gt by (simp_all add: a_def)
  have low_c: "(\<Sum>i<j. nat (c ! i) choose Suc i) = 0"
    using home by simp
  have low_s: "(\<Sum>i<j. nat (step_down c j ! i) choose Suc i)
               = (\<Sum>i<j. (a - j + i) choose Suc i)"
  proof (rule sum.cong)
    fix i assume "i \<in> {..<j}"
    then have ij: "i < j" by simp
    then have "step_down c j ! i = c ! j - 1 - (int j - int i)"
      using j by (simp add: step_down_nth)
    moreover have "nat (c ! j - 1 - (int j - int i)) = a - j + i"
      using gt ij by (simp add: a_def)
    ultimately show "nat (step_down c j ! i) choose Suc i = (a - j + i) choose Suc i"
      by simp
  qed simp
  have mid_s: "nat (step_down c j ! j) = a"
    using j by (simp add: step_down_nth a_def)
  have high: "(\<Sum>i = Suc j..<length c. nat (step_down c j ! i) choose Suc i)
              = (\<Sum>i = Suc j..<length c. nat (c ! i) choose Suc i)"
    by (rule sum.cong) (simp_all add: step_down_nth)
  have "colex_rank (step_down c j) + 1
        = ((\<Sum>i<j. (a - j + i) choose Suc i) + 1) + (a choose Suc j)
          + (\<Sum>i = Suc j..<length c. nat (c ! i) choose Suc i)"
    unfolding colex_rank_def using j
    by (simp add: sum_split_at[of j] low_s mid_s high)
  also have "\<dots> = (a choose j) + (a choose Suc j)
          + (\<Sum>i = Suc j..<length c. nat (c ! i) choose Suc i)"
    using hockey_stick[OF ja] by simp
  also have "\<dots> = colex_rank c"
    unfolding colex_rank_def using j
    by (simp add: sum_split_at[of j "length c"] low_c cj)
  finally show ?thesis .
qed

lemma colex_less_step_down:
  assumes j: "j < length c"
  shows "colex_less (step_down c j) c"
proof -
  let ?s = "step_down c j"
  have high: "drop (Suc j) ?s = drop (Suc j) c"
    by (rule nth_equalityI) (simp_all add: step_down_nth)
  have sj: "?s ! j = c ! j - 1"
    using j by (simp add: step_down_nth)
  have "?s = take j ?s @ ?s ! j # drop (Suc j) ?s"
    using j by (simp add: id_take_nth_drop[symmetric])
  then have s: "rev ?s = rev (drop (Suc j) c) @ (c ! j - 1) # rev (take j ?s)"
    using high sj by (metis rev.simps(2) rev_append append.assoc append_Cons append_Nil)
  have "c = take j c @ c ! j # drop (Suc j) c"
    using j by (simp add: id_take_nth_drop[symmetric])
  then have c: "rev c = rev (drop (Suc j) c) @ c ! j # rev (take j c)"
    by (metis rev.simps(2) rev_append append.assoc append_Cons append_Nil)
  show ?thesis
    unfolding colex_less_def
    by (subst s, subst c) (rule lexordp_append_left_rightI, simp)
qed

lemma one_down_step_down:
  assumes "valid_combination n m c" "j < length c" "int j < c ! j"
    "\<And>i. i < j \<Longrightarrow> c ! i = int i"
  shows "one_down n m c (step_down c j)"
  unfolding one_down_def
  using valid_step_down[OF assms(1-3)] rank_step_down[OF assms(2-4)]
    colex_less_step_down[OF assms(2)] by simp

lemma bring_up_children_fold:
  assumes "t \<le> k" "k < length a"
  shows "length (fold (\<lambda>i a. a[i := a ! k - (int k - int i)]) [0..<t] a) = length a \<and>
         (\<forall>p<length a. fold (\<lambda>i a. a[i := a ! k - (int k - int i)]) [0..<t] a ! p
            = (if p < t then a ! k - (int k - int p) else a ! p))"
  using assms
proof (induction t)
  case 0
  then show ?case by simp
next
  case (Suc t)
  then show ?case by (auto simp: nth_list_update)
qed

lemma bring_up_children_nth:
  assumes "k < length a" "p < length a"
  shows "bring_up_children a k ! p = (if p < k then a ! k - (int k - int p) else a ! p)"
  using bring_up_children_fold[of k k a] assms by (simp add: bring_up_children_def)

lemma length_bring_up_children:
  assumes "k < length a"
  shows "length (bring_up_children a k) = length a"
  using bring_up_children_fold[of k k a] assms by (simp add: bring_up_children_def)

lemma odometer_step_eq:
  assumes k: "k < length c" and home: "\<And>i. i < k \<Longrightarrow> c ! i = int i"
  shows "(if c[k := c ! k - 1] ! k \<noteq> int k
          then bring_up_children (c[k := c ! k - 1]) k else c[k := c ! k - 1])
         = step_down c k"
proof -
  have nth: "c[k := c ! k - 1] ! k = c ! k - 1" using k by simp
  show ?thesis
  proof (cases "c ! k - 1 = int k")
    case True
    have "(if c[k := c ! k - 1] ! k \<noteq> int k
          then bring_up_children (c[k := c ! k - 1]) k else c[k := c ! k - 1])
          = c[k := c ! k - 1]"
      unfolding nth using True by simp
    also have "\<dots> = step_down c k"
      using True home k by (intro nth_equalityI) (auto simp: step_down_nth nth_list_update)
    finally show ?thesis .
  next
    case False
    have "(if c[k := c ! k - 1] ! k \<noteq> int k
          then bring_up_children (c[k := c ! k - 1]) k else c[k := c ! k - 1])
          = bring_up_children (c[k := c ! k - 1]) k"
      unfolding nth using False by simp
    also have "\<dots> = step_down c k"
      using k
      by (intro nth_equalityI)
         (auto simp: step_down_nth bring_up_children_nth length_bring_up_children)
    finally show ?thesis .
  qed
qed

lemma step_down_0: "0 < length c \<Longrightarrow> c[0 := c ! 0 - 1] = step_down c 0"
  by (intro nth_equalityI) (auto simp: step_down_nth nth_list_update)

lemma find_next_least:
  assumes len: "length c = nat m" and k2: "k2 < length c" "c ! k2 \<noteq> int k2"
    and lt: "k < k2"
    and home: "\<And>i. k < i \<Longrightarrow> i < k2 \<Longrightarrow> c ! i = int i"
  shows "find_next m c k = Inr k2"
  using lt home
proof (induction k rule: strict_inc_induct)
  case (base i)
  then show ?case using k2 by (subst find_next.simps) simp
next
  case (step i)
  have "Suc i < length c" using step.hyps k2 by simp
  moreover have "c ! Suc i = int (Suc i)" using step.hyps step.prems by simp
  moreover have "int (Suc i) \<noteq> m" using \<open>Suc i < length c\<close> len by auto
  moreover have "find_next m c (Suc i) = Inr k2"
    using step.IH step.prems by simp
  ultimately show ?case by (subst find_next.simps) simp
qed

lemma bring_home_home:
  "k < length c \<Longrightarrow> \<not> away (c ! k) (int k) \<Longrightarrow>
   bring_home away emit c k out = Some (Inr (c, out))"
  by (subst bring_home.simps) simp

lemma bring_home_zero:
  assumes away_ok: "\<And>x y. y \<le> x \<Longrightarrow> away x y \<longleftrightarrow> x \<noteq> y"
    and emit_ok: "\<And>a out. length a = nat m \<Longrightarrow> emit a out = Inr (out @ [a])"
    and m: "0 < m"
  shows "valid_combination n m c \<Longrightarrow> out \<noteq> [] \<Longrightarrow> last out = c \<Longrightarrow>
         successively (one_down n m) out \<Longrightarrow>
         \<exists>out'. bring_home away emit c 0 out = Some (Inr (c[0 := 0], out')) \<and>
                out' \<noteq> [] \<and> last out' = c[0 := 0] \<and> successively (one_down n m) out' \<and>
                hd out' = hd out \<and> valid_combination n m (c[0 := 0]) \<and>
                colex_rank (c[0 := 0]) \<le> colex_rank c"
proof (induction "nat (c ! 0)" arbitrary: c out rule: less_induct)
  case less
  have len: "length c = nat m" using less.prems(1) by (rule valid_length)
  then have pos: "0 < length c" using m by simp
  have ge: "0 \<le> c ! 0" using valid_nth_range[OF less.prems(1) pos] by simp
  show ?case
  proof (cases "c ! 0 = 0")
    case True
    then have "\<not> away (c ! 0) (int 0)" using away_ok[of 0 0] by simp
    then have "bring_home away emit c 0 out = Some (Inr (c, out))"
      using pos by (intro bring_home_home) simp_all
    moreover have "c[0 := 0] = c" using True by (metis list_update_id)
    ultimately show ?thesis using less.prems by simp
  next
    case False
    then have gt: "int 0 < c ! 0" using ge by simp
    let ?c = "c[0 := c ! 0 - 1]"
    have away: "away (c ! 0) (int 0)" using away_ok[of 0 "c ! 0"] gt by simp
    have sd: "?c = step_down c 0" using pos by (rule step_down_0)
    have od: "one_down n m c ?c"
      unfolding sd using less.prems(1) pos gt by (intro one_down_step_down) simp_all
    then have v: "valid_combination n m ?c" by (simp add: one_down_def)
    have emit: "emit ?c out = Inr (out @ [?c])" using len by (intro emit_ok) simp
    have unfold: "bring_home away emit c 0 out = bring_home away emit ?c 0 (out @ [?c])"
      using pos away emit by (subst bring_home.simps) simp
    have succ: "successively (one_down n m) (out @ [?c])"
      using less.prems od by (simp add: successively_append_iff)
    have "nat (?c ! 0) < nat (c ! 0)" using pos gt by simp
    from less.hyps[OF this v _ _ succ]
    obtain out' where out': "bring_home away emit ?c 0 (out @ [?c]) = Some (Inr (?c[0 := 0], out'))"
      "out' \<noteq> []" "last out' = ?c[0 := 0]" "successively (one_down n m) out'"
      "hd out' = hd (out @ [?c])" "valid_combination n m (?c[0 := 0])"
      "colex_rank (?c[0 := 0]) \<le> colex_rank ?c"
      by auto
    have "colex_rank ?c \<le> colex_rank c" using od by (simp add: one_down_def)
    with out' unfold less.prems(2) show ?thesis by simp
  qed
qed

lemma permutation_loop_unfold:
  assumes "bring_home away emit c k out = Some (Inr (c1, out1))"
    and "m \<noteq> 1"
    and "find_next m c1 k = Inr k2"
    and "(if c1[k2 := c1 ! k2 - 1] ! k2 \<noteq> int k2
          then bring_up_children (c1[k2 := c1 ! k2 - 1]) k2 else c1[k2 := c1 ! k2 - 1]) = c3"
    and "(if c1[k2 := c1 ! k2 - 1] ! k2 \<noteq> int k2 then 0 else k2) = k3"
    and "emit c3 out1 = Inr out3"
  shows "permutation_loop away emit m c k out =
     (if int k3 \<noteq> m - 1 then permutation_loop away emit m c3 k3 out3
      else if k3 < length c3
      then (if c3 ! k3 \<noteq> int k3 then permutation_loop away emit m c3 k3 out3
            else Some (Inr out3))
      else Some (Inl (IndexOutOfRange, out3)))"
  by (subst permutation_loop.simps)
     (simp only: assms Option.bind.simps sum.case prod.case Let_def if_False)

lemma permutation_loop_run:
  assumes away_ok: "\<And>x y. y \<le> x \<Longrightarrow> away x y \<longleftrightarrow> x \<noteq> y"
    and emit_ok: "\<And>a out. length a = nat m \<Longrightarrow> emit a out = Inr (out @ [a])"
    and m2: "2 \<le> m"
  shows "loop_inv n m c k \<Longrightarrow> out \<noteq> [] \<Longrightarrow> last out = c \<Longrightarrow>
         successively (one_down n m) out \<Longrightarrow>
         \<exists>ys. permutation_loop away emit m c k out = Some (Inr ys) \<and> ys \<noteq> [] \<and>
              successively (one_down n m) ys \<and> hd ys = hd out \<and>
              last ys = min_combination m"
proof (induction "colex_rank c" arbitrary: c k out rule: less_induct)
  case less
  have v: "valid_combination n m c" and klen: "k < length c"
    and homek: "\<And>i. i < k \<Longrightarrow> c ! i = int i"
    and atk: "0 < k \<Longrightarrow> c ! k = int k"
    using less.prems(1) by (simp_all add: loop_inv_def)
  obtain j where j: "k < j" "j < length c" "c ! j \<noteq> int j"
    using less.prems(1) by (auto simp: loop_inv_def)
  have len: "length c = nat m" using v by (rule valid_length)
  have m0: "0 < m" using m2 by simp
  \<comment> \<open>the first inner loop\<close>
  have "\<exists>c1 out1. bring_home away emit c k out = Some (Inr (c1, out1)) \<and>
          valid_combination n m c1 \<and> (\<forall>i\<le>k. c1 ! i = int i) \<and>
          (\<forall>i. k < i \<longrightarrow> c1 ! i = c ! i) \<and> out1 \<noteq> [] \<and> last out1 = c1 \<and>
          successively (one_down n m) out1 \<and> hd out1 = hd out \<and>
          colex_rank c1 \<le> colex_rank c"
  proof (cases "k = 0")
    case True
    from bring_home_zero[OF away_ok emit_ok m0 v less.prems(2,3,4)]
    obtain out' where "bring_home away emit c 0 out = Some (Inr (c[0 := 0], out'))"
      "out' \<noteq> []" "last out' = c[0 := 0]" "successively (one_down n m) out'"
      "hd out' = hd out" "valid_combination n m (c[0 := 0])"
      "colex_rank (c[0 := 0]) \<le> colex_rank c"
      by blast
    then show ?thesis using True klen by auto
  next
    case False
    then have ck: "c ! k = int k" using atk by simp
    then have "\<not> away (c ! k) (int k)" using away_ok[of "int k" "int k"] by simp
    then have "bring_home away emit c k out = Some (Inr (c, out))"
      using klen by (intro bring_home_home)
    moreover have "\<forall>i\<le>k. c ! i = int i"
      using homek ck by (auto simp: le_less)
    ultimately show ?thesis using v less.prems by auto
  qed
  then obtain c1 out1 where bh: "bring_home away emit c k out = Some (Inr (c1, out1))"
    and v1: "valid_combination n m c1"
    and home1: "\<And>i. i \<le> k \<Longrightarrow> c1 ! i = int i"
    and same1: "\<And>i. k < i \<Longrightarrow> c1 ! i = c ! i"
    and o1: "out1 \<noteq> []" "last out1 = c1" "successively (one_down n m) out1"
      "hd out1 = hd out"
    and r1: "colex_rank c1 \<le> colex_rank c"
    by blast
  have len1: "length c1 = nat m" using v1 by (rule valid_length)
  \<comment> \<open>the second inner loop\<close>
  define k2 where "k2 = (LEAST i. k < i \<and> c1 ! i \<noteq> int i)"
  have ex: "k < j \<and> c1 ! j \<noteq> int j" using j same1 by simp
  have k2: "k < k2" "c1 ! k2 \<noteq> int k2"
    using LeastI[of "\<lambda>i. k < i \<and> c1 ! i \<noteq> int i", OF ex] by (simp_all add: k2_def)
  have "k2 \<le> j"
    unfolding k2_def using ex by (rule Least_le)
  then have k2len: "k2 < length c1" using j len len1 by simp
  have home2: "c1 ! i = int i" if "i < k2" for i
  proof (cases "i \<le> k")
    case True
    then show ?thesis by (rule home1)
  next
    case False
    then show ?thesis
      using not_less_Least[of i "\<lambda>i. k < i \<and> c1 ! i \<noteq> int i"] that
      by (simp add: k2_def)
  qed
  have fn: "find_next m c1 k = Inr k2"
    using len1 k2len k2(2) k2(1) home2 by (intro find_next_least) simp_all
  have gt2: "int k2 < c1 ! k2"
    using valid_ge_index[OF v1 k2len] k2(2) by simp
  \<comment> \<open>the move to the next array\<close>
  define c3 where "c3 = step_down c1 k2"
  define out3 where "out3 = out1 @ [c3]"
  have od: "one_down n m c1 c3"
    unfolding c3_def using v1 k2len gt2 home2 by (intro one_down_step_down)
  then have v3: "valid_combination n m c3" and r3: "colex_rank c3 + 1 = colex_rank c1"
    by (simp_all add: one_down_def)
  have len3: "length c3 = nat m" using v3 by (rule valid_length)
  have k2len3: "k2 < length c3" using k2len len1 len3 by simp
  have emit: "emit c3 out1 = Inr out3"
    unfolding out3_def using len3 by (rule emit_ok)
  have o3: "out3 \<noteq> []" "last out3 = c3" "successively (one_down n m) out3"
    "hd out3 = hd out"
    using o1 od by (simp_all add: out3_def successively_append_iff)
  have step: "(if c1[k2 := c1 ! k2 - 1] ! k2 \<noteq> int k2
          then bring_up_children (c1[k2 := c1 ! k2 - 1]) k2 else c1[k2 := c1 ! k2 - 1]) = c3"
    unfolding c3_def using k2len home2 by (rule odometer_step_eq)
  have nth2: "c1[k2 := c1 ! k2 - 1] ! k2 = c1 ! k2 - 1" using k2len by simp
  have c3_low: "c3 ! i = c1 ! k2 - 1 - (int k2 - int i)" if "i \<le> k2" for i
    using that k2len by (simp add: c3_def step_down_nth)
  have c3_high: "c3 ! i = c1 ! i" if "k2 < i" "i < length c1" for i
    using that by (simp add: c3_def step_down_nth)
  have m1: "m \<noteq> 1" using m2 by simp
  show ?case
  proof (cases "c1 ! k2 - 1 = int k2")
    case False
    have k3: "(if c1[k2 := c1 ! k2 - 1] ! k2 \<noteq> int k2 then 0 else k2) = 0"
      unfolding nth2 using False by simp
    have "permutation_loop away emit m c k out = permutation_loop away emit m c3 0 out3"
      using permutation_loop_unfold[OF bh m1 fn step k3 emit] m2 by simp
    moreover have "loop_inv n m c3 0"
      unfolding loop_inv_def using v3 k2len3 k2(1) c3_low[of k2] False
      by (auto intro!: exI[of _ k2])
    moreover have "colex_rank c3 < colex_rank c" using r3 r1 by simp
    ultimately show ?thesis
      using less.hyps[of c3 0 out3] o3 by simp
  next
    case True
    have k3: "(if c1[k2 := c1 ! k2 - 1] ! k2 \<noteq> int k2 then 0 else k2) = k2"
      unfolding nth2 using True by simp
    have home3: "c3 ! i = int i" if "i \<le> k2" for i
      using c3_low[OF that] True by simp
    show ?thesis
    proof (cases "int k2 = m - 1")
      case last: True
      have "permutation_loop away emit m c k out = Some (Inr out3)"
        using permutation_loop_unfold[OF bh m1 fn step k3 emit] last k2len3 home3[of k2]
        by simp
      moreover have "c3 = min_combination m"
      proof (rule all_home_min[OF len3])
        fix i assume "i < length c3"
        then have "i \<le> k2" using last len3 by simp
        then show "c3 ! i = int i" by (rule home3)
      qed
      ultimately show ?thesis using o3 by simp
    next
      case more: False
      have "permutation_loop away emit m c k out = permutation_loop away emit m c3 k2 out3"
        using permutation_loop_unfold[OF bh m1 fn step k3 emit] more by simp
      moreover have "loop_inv n m c3 k2"
      proof -
        have s: "Suc k2 < length c1" using more k2len len1 by auto
        have "c1 ! k2 < c1 ! Suc k2" using v1 s by (intro valid_nth_less) simp_all
        then have "c3 ! Suc k2 \<noteq> int (Suc k2)"
          using c3_high[of "Suc k2"] s True by simp
        then show ?thesis
          unfolding loop_inv_def using v3 k2len3 home3 s len1 len3
          by (auto intro!: exI[of _ "Suc k2"])
      qed
      moreover have "colex_rank c3 < colex_rank c" using r3 r1 by simp
      ultimately show ?thesis
        using less.hyps[of c3 k2 out3] o3 by simp
    qed
  qed
qed

lemma permutation_loop_single:
  assumes away_ok: "\<And>x y. y \<le> x \<Longrightarrow> away x y \<longleftrightarrow> x \<noteq> y"
    and emit_ok: "\<And>a out. length a = nat 1 \<Longrightarrow> emit a out = Inr (out @ [a])"
    and v: "valid_combination n 1 c" and o: "out \<noteq> []" "last out = c"
      "successively (one_down n 1) out"
  shows "\<exists>ys. permutation_loop away emit 1 c 0 out = Some (Inr ys) \<and> ys \<noteq> [] \<and>
              successively (one_down n 1) ys \<and> hd ys = hd out \<and>
              last ys = min_combination 1"
proof -
  from bring_home_zero[OF away_ok emit_ok _ v o]
  obtain out' where bh: "bring_home away emit c 0 out = Some (Inr (c[0 := 0], out'))"
    and o': "out' \<noteq> []" "last out' = c[0 := 0]" "successively (one_down n 1) out'"
      "hd out' = hd out"
    by auto
  have "length c = 1" using valid_length[OF v] by simp
  then have "c[0 := 0] = min_combination 1"
    by (intro all_home_min) simp_all
  moreover have "permutation_loop away emit 1 c 0 out = Some (Inr out')"
    by (subst permutation_loop.simps) (simp add: bh)
  ultimately show ?thesis using o' by simp
qed

lemma rank_max_combination:
  assumes "0 \<le> m" "m \<le> n"
  shows "colex_rank (max_combination n m) + 1 = nat n choose nat m"
proof -
  have "colex_rank (max_combination n m)
        = (\<Sum>i<nat m. (nat n - nat m + i) choose Suc i)"
    unfolding colex_rank_def max_combination_def
    using assms by (intro sum.cong) (auto simp: nat_add_distrib nat_diff_distrib)
  then show ?thesis
    using hockey_stick[of "nat m" "nat n"] assms by simp
qed

lemma rank_min_combination: "colex_rank (min_combination m) = 0"
  by (simp add: colex_rank_def min_combination_def)

lemma chain_valid_Cons:
  "successively (one_down n m) (x # xs) \<Longrightarrow> valid_combination n m x \<Longrightarrow>
   \<forall>c\<in>set (x # xs). valid_combination n m c"
proof (induction xs arbitrary: x)
  case Nil
  then show ?case by simp
next
  case (Cons y ys)
  then have "one_down n m x y" and "successively (one_down n m) (y # ys)" by simp_all
  moreover from this have "valid_combination n m y" by (simp add: one_down_def)
  ultimately have "\<forall>c\<in>set (y # ys). valid_combination n m c" by (intro Cons.IH)
  then show ?case using Cons.prems(2) by simp
qed

lemma chain_valid:
  "successively (one_down n m) ys \<Longrightarrow> ys \<noteq> [] \<Longrightarrow> valid_combination n m (hd ys) \<Longrightarrow>
   \<forall>c\<in>set ys. valid_combination n m c"
  using chain_valid_Cons[of n m "hd ys" "tl ys"] by simp

lemma chain_rank_Cons:
  "successively (one_down n m) (x # xs) \<Longrightarrow>
   colex_rank (last (x # xs)) + length (x # xs) = colex_rank x + 1"
proof (induction xs arbitrary: x)
  case Nil
  then show ?case by simp
next
  case (Cons y ys)
  then have step: "one_down n m x y" and rest: "successively (one_down n m) (y # ys)"
    by simp_all
  have "colex_rank y + 1 = colex_rank x" using step by (simp add: one_down_def)
  moreover have "colex_rank (last (y # ys)) + length (y # ys) = colex_rank y + 1"
    using rest by (rule Cons.IH)
  ultimately show ?case by simp
qed

lemma chain_rank:
  "successively (one_down n m) ys \<Longrightarrow> ys \<noteq> [] \<Longrightarrow>
   colex_rank (last ys) + length ys = colex_rank (hd ys) + 1"
  using chain_rank_Cons[of n m "hd ys" "tl ys"] by simp

lemma transp_colex: "transp (\<lambda>a b. colex_less b a)"
  unfolding transp_def colex_less_def by (blast intro: lexordp_trans)

lemma chain_sorted:
  assumes "successively (one_down n m) ys"
  shows "sorted_wrt (\<lambda>a b. colex_less b a) ys"
proof -
  have "successively (\<lambda>a b. colex_less b a) ys"
    using assms by (rule successively_mono) (simp add: one_down_def)
  then show ?thesis
    by (simp add: successively_conv_sorted_wrt[OF transp_colex])
qed

lemma sorted_wrt_irrefl_distinct:
  "sorted_wrt P xs \<Longrightarrow> (\<And>x. \<not> P x x) \<Longrightarrow> distinct xs"
  by (induction xs) auto

lemma chain_distinct:
  assumes "successively (one_down n m) ys"
  shows "distinct ys"
  using chain_sorted[OF assms]
  by (rule sorted_wrt_irrefl_distinct) (simp add: colex_less_def lexordp_irreflexive')

lemma full_run_decreasing:
  "full_run n m ys \<Longrightarrow> decreasing_run n m ys"
  unfolding full_run_def decreasing_run_def
  using chain_sorted[of n m ys] by (simp add: max_combination_def min_combination_def)

lemma full_run_enumerates:
  assumes m: "0 \<le> m" "m \<le> n" and run: "full_run n m ys"
  shows "enumerates_combinations n m ys"
proof -
  have ne: "ys \<noteq> []" and chain: "successively (one_down n m) ys"
    and hd: "hd ys = max_combination n m" and last: "last ys = min_combination m"
    using run by (simp_all add: full_run_def)
  have valid: "\<forall>c\<in>set ys. valid_combination n m c"
    using chain ne valid_max_combination[OF m] hd by (intro chain_valid) simp_all
  have len: "length ys = nat n choose nat m"
    using chain_rank[OF chain ne] rank_max_combination[OF m] rank_min_combination
    by (simp add: hd last)
  have dist: "distinct ys" using chain by (rule chain_distinct)
  let ?S = "{K. K \<subseteq> {0..<n} \<and> card K = nat m}"
  have fin: "finite ?S" by simp
  have cardS: "card ?S = nat n choose nat m"
    using n_subsets[of "{0..<n}" "nat m"] by simp
  have inj: "inj_on set (set ys)"
  proof (rule inj_onI)
    fix a b assume "a \<in> set ys" "b \<in> set ys" "set a = set b"
    then show "a = b"
      using valid by (auto simp: valid_combination_def intro: strict_sorted_equal)
  qed
  have sub: "set ` set ys \<subseteq> ?S"
  proof
    fix K assume "K \<in> set ` set ys"
    then obtain c where c: "c \<in> set ys" "K = set c" by auto
    then have v: "valid_combination n m c" using valid by simp
    then have "distinct c"
      by (simp add: valid_combination_def strict_sorted_iff)
    then have "card (set c) = nat m"
      using v by (simp add: distinct_card valid_combination_def)
    then show "K \<in> ?S" using v c by (simp add: valid_combination_def)
  qed
  have "card (set ` set ys) = length ys"
    using inj dist by (simp add: card_image distinct_card)
  then have all: "set ` set ys = ?S"
    using sub fin cardS len by (intro card_subset_eq) simp_all
  have each: "\<exists>!i. i < length ys \<and> set (ys ! i) = K"
    if K: "K \<subseteq> {0..<n} \<and> card K = nat m" for K
  proof -
    from K all have "K \<in> set ` set ys" by simp
    then obtain i where i: "i < length ys" "set (ys ! i) = K"
      by (auto simp: in_set_conv_nth)
    show ?thesis
    proof (rule ex1I[of _ i])
      show "i < length ys \<and> set (ys ! i) = K" using i by simp
    next
      fix i' assume i': "i' < length ys \<and> set (ys ! i') = K"
      then have "ys ! i' = ys ! i"
        using i inj by (auto dest!: inj_onD[of set "set ys" "ys ! i'" "ys ! i"])
      then show "i' = i"
        using dist i i' by (simp add: nth_eq_iff_index_eq)
    qed
  qed
  have shape: "length c = nat m \<and> sorted_wrt (<) c \<and> set c \<subseteq> {0..<n}"
    if "c \<in> set ys" for c
    using valid that by (simp add: valid_combination_def)
  show ?thesis
    unfolding enumerates_combinations_def
  proof (intro conjI ballI allI impI)
    show "length ys = nat n choose nat m" by (rule len)
  next
    fix c assume "c \<in> set ys"
    from shape[OF this] show "length c = nat m" "sorted_wrt (<) c" "set c \<subseteq> {0..<n}"
      by simp_all
  next
    fix K assume "K \<subseteq> {0..<n} \<and> card K = nat m"
    then show "\<exists>!i. i < length ys \<and> set (ys ! i) = K" by (rule each)
  qed
qed

lemma enumerator_run:
  assumes away_ok: "\<And>x y. y \<le> x \<Longrightarrow> away x y \<longleftrightarrow> x \<noteq> y"
    and emit_ok: "\<And>a out. length a = nat m \<Longrightarrow> emit a out = Inr (out @ [a])"
    and m: "1 \<le> m" "m < n"
  shows "\<exists>ys. permutation_loop away emit m (initial_indices n m) 0
                [initial_indices n m] = Some (Inr ys) \<and> full_run n m ys"
proof -
  let ?c = "max_combination n m"
  have init: "initial_indices n m = ?c" using m by (intro initial_indices_eq) simp
  have v: "valid_combination n m ?c" using m by (intro valid_max_combination) simp_all
  have len: "length ?c = nat m" by (simp add: max_combination_def)
  have "\<exists>ys. permutation_loop away emit m ?c 0 [?c] = Some (Inr ys) \<and> ys \<noteq> [] \<and>
              successively (one_down n m) ys \<and> hd ys = hd [?c] \<and>
              last ys = min_combination m"
  proof (cases "m = 1")
    case True
    show ?thesis
      unfolding True
      using away_ok emit_ok[unfolded True] v[unfolded True]
      by (intro permutation_loop_single) simp_all
  next
    case False
    then have m2: "2 \<le> m" using m by simp
    have "?c ! 1 \<noteq> int 1" using m m2 by (simp add: max_combination_def)
    then have "loop_inv n m ?c 0"
      unfolding loop_inv_def using v len m2 by (auto intro!: exI[of _ 1])
    then show ?thesis
      using away_ok emit_ok m2 by (intro permutation_loop_run) simp_all
  qed
  then show ?thesis
    unfolding init by (auto simp: full_run_def)
qed

lemma make_combinations_run:
  assumes "1 \<le> m" "m < n"
  shows "\<exists>ys. make_combinations n m = Some (Inr ys) \<and> full_run n m ys"
proof -
  have len: "length (initial_indices n m) = nat m"
    using assms by (simp add: initial_indices_eq max_combination_def)
  have first: "print_permu (initial_indices n m) m [] = [initial_indices n m]"
    using assms len by (simp add: print_permu_def)
  have "\<exists>ys. permutation_loop (\<lambda>x y. x \<noteq> y)
                (\<lambda>indices cout. Inr (print_permu indices m cout)) m
                (initial_indices n m) 0 [initial_indices n m] = Some (Inr ys) \<and>
              full_run n m ys"
    using assms by (intro enumerator_run) (simp_all add: print_permu_def)
  then show ?thesis using assms by (simp add: make_combinations_def first)
qed

section \<open>Evaluations on the concrete inputs\<close>

lemma create_graph_example:
  "create_graph 4 example_input [] =
     [WeightedEdge 1 0 1, WeightedEdge 2 0 4, WeightedEdge 2 1 2, WeightedEdge 3 1 5,
      WeightedEdge 3 2 3]"
  by code_simp

lemma symmetric_example_input: "symmetric_input 4 example_input"
proof -
  have four: "a < 4 \<longleftrightarrow> a = 0 \<or> a = 1 \<or> a = 2 \<or> a = 3" for a :: nat
    by auto
  show ?thesis
    unfolding symmetric_input_def four
    by (auto simp: example_input_def)
qed


lemma make_combinations_5_3:
  "make_combinations 5 3 = Some
     (Inr [[2, 3, 4], [1, 3, 4], [0, 3, 4], [1, 2, 4], [0, 2, 4], [0, 1, 4],
           [1, 2, 3], [0, 2, 3], [0, 1, 3], [0, 1, 2]])"
  by code_simp

lemma create_graph_max_weight:
  "create_graph 2 max_weight_input [] = [WeightedEdge 1 0 2147483647]"
  by code_simp

lemma create_graph_self_loop: "create_graph 1 self_loop_input [] = [WeightedEdge 0 0 5]"
  by code_simp

lemma create_graph_single_vertex: "create_graph 1 single_vertex_input [] = []"
  by code_simp

lemma min_incident_max_weight:
  "min_incident [WeightedEdge 1 0 2147483647] [1] = Inr (0, [1, 1])"
  by code_simp

lemma min_incident_self_loop: "min_incident [WeightedEdge 0 0 5] [0] = Inr (0, [0, 0])"
  by code_simp

section \<open>The claims about \<open>create_graph\<close>\<close>

text \<open>
  Claim C10. Every edge that \<open>create_graph\<close> stores into \<open>G\<close> has
  \<open>getU() \<ge> getV()\<close>: \<open>getU()\<close> is the column index and \<open>getV()\<close> the row index of
  a non-zero matrix entry whose column index is at least its row index.
\<close>

theorem create_graph_endpoint_order:
  assumes "e \<in> set (drop (length G) (create_graph vertexCount inputFile G))"
  shows "getV e \<le> getU e \<and>
         (\<exists>j i. j \<le> i \<and> i < vertexCount \<and> inputFile j i \<noteq> 0 \<and>
                e = WeightedEdge (int i) (int j) (inputFile j i))"
proof -
  from assms have "e \<in> edge_of_entry inputFile ` set (upper_entries vertexCount inputFile)"
    by (simp add: create_graph_eq)
  then obtain j i where "(j, i) \<in> set (upper_entries vertexCount inputFile)"
    and e: "e = edge_of_entry inputFile (j, i)"
    by auto
  then have "j \<le> i \<and> i < vertexCount \<and> inputFile j i \<noteq> 0"
    by (simp add: set_upper_entries)
  then show ?thesis
    using e by (auto simp: edge_of_entry_def)
qed

theorem create_graph_endpoint_order_witness:
  "WeightedEdge 2 1 2 \<in> set (drop (length ([] :: WeightedEdge list))
                                 (create_graph 4 example_input [])) \<and>
   getV (WeightedEdge 2 1 2) \<le> getU (WeightedEdge 2 1 2)"
proof -
  have mem: "WeightedEdge 2 1 2 \<in> set (drop (length ([] :: WeightedEdge list))
                                 (create_graph 4 example_input []))"
    by (simp add: create_graph_example)
  from create_graph_endpoint_order[OF mem] mem show ?thesis by simp
qed

text \<open>
  Claim C7, as amended. \<open>create_graph\<close> stores exactly one edge for each matrix
  entry whose column index is at least its row index and whose value is not zero, in
  the order of the scan, and no other edge; no stored edge has weight zero; and when
  the matrix is symmetric, every pair of vertices with a non-zero entry is joined by
  exactly one stored edge.
\<close>

theorem create_graph_upper_triangle:
  "create_graph vertexCount inputFile [] =
     map (edge_of_entry inputFile) (upper_entries vertexCount inputFile) \<and>
   distinct (upper_entries vertexCount inputFile) \<and>
   set (upper_entries vertexCount inputFile) =
     {(j, i). j \<le> i \<and> i < vertexCount \<and> inputFile j i \<noteq> 0} \<and>
   (\<forall>e\<in>set (create_graph vertexCount inputFile []). getW e \<noteq> 0) \<and>
   (symmetric_input vertexCount inputFile \<longrightarrow>
      (\<forall>a<vertexCount. \<forall>b<vertexCount. inputFile a b \<noteq> 0 \<longrightarrow>
         length (filter (\<lambda>e. {getU e, getV e} = {int a, int b})
                   (create_graph vertexCount inputFile [])) = 1))"
proof -
  let ?E = "upper_entries vertexCount inputFile"
  let ?G = "create_graph vertexCount inputFile []"
  have G: "?G = map (edge_of_entry inputFile) ?E" by (simp add: create_graph_eq)
  have weights: "\<forall>e\<in>set ?G. getW e \<noteq> 0"
    unfolding G by (auto simp: set_upper_entries edge_of_entry_def)
  have once: "length (filter (\<lambda>e. {getU e, getV e} = {int a, int b}) ?G) = 1"
    if sym: "symmetric_input vertexCount inputFile"
      and a: "a < vertexCount" and b: "b < vertexCount" and ab: "inputFile a b \<noteq> 0"
    for a b
  proof -
    let ?y = "(min a b, max a b)"
    have "inputFile (min a b) (max a b) \<noteq> 0"
      using sym a b ab by (cases "a \<le> b") (auto simp: symmetric_input_def min_def max_def)
    then have y: "?y \<in> set ?E"
      using a b by (simp add: set_upper_entries)
    have "filter (\<lambda>x. {getU (edge_of_entry inputFile x), getV (edge_of_entry inputFile x)}
                        = {int a, int b}) ?E
          = filter (\<lambda>x. x = ?y) ?E"
    proof (rule filter_cong[OF refl])
      fix x assume "x \<in> set ?E"
      then have "fst x \<le> snd x" by (auto simp: set_upper_entries)
      then show "({getU (edge_of_entry inputFile x), getV (edge_of_entry inputFile x)}
                   = {int a, int b}) = (x = ?y)"
        by (cases x) (auto simp: edge_of_entry_def doubleton_eq_iff min_def max_def)
    qed
    then have "length (filter (\<lambda>e. {getU e, getV e} = {int a, int b}) ?G)
               = length (filter (\<lambda>x. x = ?y) ?E)"
      unfolding G by (simp add: filter_map comp_def)
    also have "\<dots> = card ({x. x = ?y} \<inter> set ?E)"
      using distinct_upper_entries by (rule distinct_length_filter)
    also have "{x. x = ?y} \<inter> set ?E = {?y}" using y by auto
    finally show ?thesis by simp
  qed
  show ?thesis
    using G distinct_upper_entries set_upper_entries weights once by blast
qed

theorem create_graph_upper_triangle_witness:
  "symmetric_input 4 example_input \<and> example_input 1 2 \<noteq> 0 \<and>
   WeightedEdge 2 1 2 \<in> set (create_graph 4 example_input []) \<and>
   getW (WeightedEdge 2 1 2) \<noteq> 0 \<and>
   length (filter (\<lambda>e. {getU e, getV e} = {int 1, int 2})
             (create_graph 4 example_input [])) = 1"
proof -
  have ne: "example_input 1 2 \<noteq> 0" by (simp add: example_input_def)
  have mem: "WeightedEdge 2 1 2 \<in> set (create_graph 4 example_input [])"
    by (simp add: create_graph_example)
  have all: "\<forall>e\<in>set (create_graph 4 example_input []). getW e \<noteq> 0"
    "\<forall>a<4. \<forall>b<4. example_input a b \<noteq> 0 \<longrightarrow>
       length (filter (\<lambda>e. {getU e, getV e} = {int a, int b})
                 (create_graph 4 example_input [])) = 1"
    using create_graph_upper_triangle[of 4 example_input] symmetric_example_input
    by blast+
  have w: "getW (WeightedEdge 2 1 2) \<noteq> 0" using all(1) mem by blast
  have lt: "(1::nat) < 4" "(2::nat) < 4" by simp_all
  have once: "length (filter (\<lambda>e. {getU e, getV e} = {int 1, int 2})
             (create_graph 4 example_input [])) = 1"
    using all(2) lt ne by blast
  from symmetric_example_input ne mem w once show ?thesis by blast
qed

theorem create_graph_lower_triangle_counterexample:
  "create_graph 2 asymmetric_input [] = [WeightedEdge 1 0 3] \<and>
   lower_entries 2 asymmetric_input = [] \<and>
   length (create_graph 2 asymmetric_input []) \<noteq> length (lower_entries 2 asymmetric_input)"
proof -
  have "create_graph 2 asymmetric_input [] = [WeightedEdge 1 0 3]" by code_simp
  moreover have "lower_entries 2 asymmetric_input = []" by code_simp
  ultimately show ?thesis by simp
qed

section \<open>The claims about Prim's algorithm\<close>

text \<open>
  Claim C6, as amended. If \<open>G\<close> is not empty and no edge of \<open>G\<close> has exactly one
  vertex in the frontier \<open>vT\<close>, \<open>min_incident\<close> returns index 0 and appends
  \<open>G[0].getU()\<close> to \<open>vT\<close>.
\<close>

theorem min_incident_no_boundary:
  assumes "G \<noteq> []" and "\<forall>e\<in>set G. \<not> boundary_edge vT e"
  shows "min_incident G vT = Inr (0, vT @ [getU (G ! 0)])"
proof -
  have "fold (min_incident_step G vT) [0..<length G] (0, INT_MAX, False) = (0, INT_MAX, False)"
    using assms(2) by (intro min_incident_fold_no_boundary) simp
  then show ?thesis using assms(1) by (simp add: min_incident_def)
qed

theorem min_incident_no_boundary_witness:
  "min_incident [WeightedEdge 1 0 1, WeightedEdge 3 2 1] [1, 0] = Inr (0, [1, 0, 1])"
  using min_incident_no_boundary[of "[WeightedEdge 1 0 1, WeightedEdge 3 2 1]" "[1, 0]"]
  by (simp add: boundary_edge_def)

theorem min_incident_empty_graph_counterexample:
  "min_incident [] [0] = Inl IndexOutOfRange"
  by (simp add: min_incident_def)

text \<open>
  Claim C1, at the graph with one vertex. With no edge, \<open>G\<close> is empty and
  \<open>spanning_tree\<close> reads \<open>G[0]\<close> out of range. With a loop at the vertex, the run
  completes with a tree of one edge and total weight 5, where a spanning tree of a
  graph with one vertex has no edge and weight 0.
\<close>

theorem spanning_tree_single_vertex:
  "create_graph 1 single_vertex_input [] = [] \<and>
   spanning_tree 1 single_vertex_input = Inl IndexOutOfRange \<and>
   spanning_tree 1 self_loop_input = Inr ([WeightedEdge 0 0 5], 5, [0, 0])"
proof -
  have "spanning_tree 1 single_vertex_input = Inl IndexOutOfRange"
    unfolding spanning_tree_def create_graph_single_vertex Let_def by simp
  moreover have "spanning_tree 1 self_loop_input = Inr ([WeightedEdge 0 0 5], 5, [0, 0])"
    unfolding spanning_tree_def create_graph_self_loop Let_def
    by (simp add: min_incident_self_loop INT_MAX_def INT_MIN_def)
  ultimately show ?thesis using create_graph_single_vertex by blast
qed

text \<open>
  Claim C9, at the graph with two vertices joined by an edge of weight \<open>INT_MAX\<close>. The
  graph is connected and its edge is a boundary edge of the frontier \<open>[1]\<close>, but
  \<open>min_incident\<close> appends vertex 1, which is in the frontier already.
\<close>

theorem frontier_repeats_vertex:
  "create_graph 2 max_weight_input [] = [WeightedEdge 1 0 2147483647] \<and>
   (0, 1) \<in> (adjacent (create_graph 2 max_weight_input []))\<^sup>* \<and>
   boundary_edge [1] (WeightedEdge 1 0 2147483647) \<and>
   min_incident [WeightedEdge 1 0 2147483647] [1] = Inr (0, [1, 1]) \<and>
   spanning_tree 2 max_weight_input
     = Inr ([WeightedEdge 1 0 2147483647], 2147483647, [1, 1])"
proof -
  have "(0, 1) \<in> adjacent (create_graph 2 max_weight_input [])"
    by (simp add: create_graph_max_weight adjacent_def)
  then have "(0, 1) \<in> (adjacent (create_graph 2 max_weight_input []))\<^sup>*" by blast
  moreover have "boundary_edge [1] (WeightedEdge 1 0 2147483647)"
    by (simp add: boundary_edge_def)
  moreover have "spanning_tree 2 max_weight_input
     = Inr ([WeightedEdge 1 0 2147483647], 2147483647, [1, 1])"
    unfolding spanning_tree_def create_graph_max_weight Let_def
    by (simp add: min_incident_max_weight INT_MAX_def INT_MIN_def)
  ultimately show ?thesis
    using create_graph_max_weight min_incident_max_weight by blast
qed


section \<open>The claims about the enumerator\<close>

text \<open>
  Claim C5, as amended. \<open>make_combinations\<close> called with the input count at most the
  combination count, and \<open>make_graphs\<close> called with more edges than the vertex count
  has edge slots, report the error at once and put out no array.
\<close>

theorem invalid_size_reported:
  "(input_count \<le> combination_count \<longrightarrow>
      make_combinations input_count combination_count
        = Some (Inl (InvalidCombinationSize, []))) \<and>
   (triangle_number (VERTEX_COUNT - 1) < EDGE_COUNT \<longrightarrow>
      make_graphs VERTEX_COUNT EDGE_COUNT = Some (Inl (InvalidCombinationSize, [])))"
  by (simp add: make_combinations_def make_graphs_def Let_def)

theorem invalid_size_reported_witness:
  "(2::int) \<le> 2 \<and> make_combinations 2 2 = Some (Inl (InvalidCombinationSize, [])) \<and>
   triangle_number (3 - 1) < 4 \<and> make_graphs 3 4 = Some (Inl (InvalidCombinationSize, []))"
proof -
  have t: "triangle_number (3 - 1) < 4" by (simp add: triangle_number_def)
  from invalid_size_reported[of 2 2 3 4] t show ?thesis by simp
qed

theorem invalid_size_counterexample:
  "triangle_number (2 - 1) \<le> 1 \<and> make_graphs 2 1 = Some (Inr [[0]]) \<and>
   (0::int) < 1 \<and> make_combinations 1 0 = Some (Inl (IndexOutOfRange, []))"
proof -
  have "triangle_number (2 - 1) \<le> 1" by (simp add: triangle_number_def)
  moreover have "make_graphs 2 1 = Some (Inr [[0]])" by code_simp
  moreover have "make_combinations 1 0 = Some (Inl (IndexOutOfRange, []))" by code_simp
  ultimately show ?thesis by simp
qed

text \<open>
  Claim C2. For all \<open>n > m \<ge> 1\<close> a full run of the enumerator
  \<open>make_combinations\<close> completes and puts out exactly \<open>C(n, m)\<close> arrays; each is
  strictly increasing, has \<open>m\<close> elements and draws them from \<open>[0, n)\<close>; and every
  \<open>m\<close>-subset of \<open>[0, n)\<close> is put out exactly once.
\<close>

theorem enumerator_yields_each_combination_once:
  assumes "1 \<le> m" and "m < n"
  shows "\<exists>ys. make_combinations n m = Some (Inr ys) \<and> enumerates_combinations n m ys"
proof -
  from make_combinations_run[OF assms] obtain ys
    where "make_combinations n m = Some (Inr ys)" "full_run n m ys" by blast
  moreover from this assms have "enumerates_combinations n m ys"
    by (intro full_run_enumerates) simp_all
  ultimately show ?thesis by blast
qed

theorem enumerator_yields_each_combination_once_witness:
  "make_combinations 5 3 = Some
     (Inr [[2, 3, 4], [1, 3, 4], [0, 3, 4], [1, 2, 4], [0, 2, 4], [0, 1, 4],
           [1, 2, 3], [0, 2, 3], [0, 1, 3], [0, 1, 2]]) \<and>
   enumerates_combinations 5 3
     [[2, 3, 4], [1, 3, 4], [0, 3, 4], [1, 2, 4], [0, 2, 4], [0, 1, 4],
      [1, 2, 3], [0, 2, 3], [0, 1, 3], [0, 1, 2]]"
proof -
  have "\<exists>ys. make_combinations 5 3 = Some (Inr ys) \<and> enumerates_combinations 5 3 ys"
    using enumerator_yields_each_combination_once[of 3 5] by simp
  then show ?thesis
    unfolding make_combinations_5_3 by simp
qed

text \<open>
  Claim C4. For all \<open>n > m \<ge> 1\<close> the first array of a full run of
  \<open>make_combinations\<close> is \<open>[n-m, ..., n-1]\<close>, the last is \<open>[0, ..., m-1]\<close>, and the
  run is strictly decreasing in the colexicographic order.
\<close>

theorem enumerator_runs_from_max_down_to_min:
  assumes "1 \<le> m" and "m < n"
  shows "\<exists>ys. make_combinations n m = Some (Inr ys) \<and> decreasing_run n m ys"
  using make_combinations_run[OF assms] by (blast intro: full_run_decreasing)

theorem enumerator_runs_from_max_down_to_min_witness:
  "make_combinations 5 3 = Some
     (Inr [[2, 3, 4], [1, 3, 4], [0, 3, 4], [1, 2, 4], [0, 2, 4], [0, 1, 4],
           [1, 2, 3], [0, 2, 3], [0, 1, 3], [0, 1, 2]]) \<and>
   decreasing_run 5 3
     [[2, 3, 4], [1, 3, 4], [0, 3, 4], [1, 2, 4], [0, 2, 4], [0, 1, 4],
      [1, 2, 3], [0, 2, 3], [0, 1, 3], [0, 1, 2]]"
proof -
  have "\<exists>ys. make_combinations 5 3 = Some (Inr ys) \<and> decreasing_run 5 3 ys"
    using enumerator_runs_from_max_down_to_min[of 3 5] by simp
  then show ?thesis
    unfolding make_combinations_5_3 by simp
qed

section \<open>The claims about \<open>write_graph\<close>\<close>

text \<open>
  Claim C8, at three vertices and one edge. The second array that \<open>make_graphs\<close>
  hands to \<open>write_graph\<close> is \<open>[1]\<close>; the loop that fills \<open>edgeSet\<close> reads
  \<open>indices[1]\<close> in its last iteration, past the one element of the array, and the run
  ends there.
\<close>

theorem edge_set_loop_reads_past_end:
  "make_graphs 3 1 = Some (Inl (IndexOutOfRange, [[2], [1]])) \<and>
   edge_set_loop [1] [0..<nat (triangle_number (3 - 1))] 0
     (replicate (nat (triangle_number (3 - 1))) False) = Inl IndexOutOfRange"
proof -
  have "make_graphs 3 1 = Some (Inl (IndexOutOfRange, [[2], [1]]))" by code_simp
  moreover have "edge_set_loop [1] [0..<nat (triangle_number (3 - 1))] 0
     (replicate (nat (triangle_number (3 - 1))) False) = Inl IndexOutOfRange"
    by code_simp
  ultimately show ?thesis by simp
qed

text \<open>
  Claim C3, at three vertices and two edges. For the third array \<open>[0, 1]\<close> that
  \<open>make_graphs\<close> hands over, \<open>write_graph\<close> reads past the end of the array, so what
  it writes depends on the memory that follows: were the next word 2, the matrix would
  be the one of the array \<open>[0, 1, 2]\<close>, with three ones above the diagonal.
\<close>

theorem write_graph_depends_on_memory_past_array:
  "make_graphs 3 2 = Some (Inl (IndexOutOfRange, [[1, 2], [0, 2], [0, 1]])) \<and>
   write_graph [0, 1] 3 = Inl IndexOutOfRange \<and>
   write_graph [0, 1, 2] 3
     = Inr ([[0, 1, 1], [1, 0, 1], [1, 1, 0]], [[0, 1, 1], [1, 0, 1], [1, 1, 0]])"
proof -
  have "make_graphs 3 2 = Some (Inl (IndexOutOfRange, [[1, 2], [0, 2], [0, 1]]))"
    by code_simp
  moreover have "write_graph [0, 1] 3 = Inl IndexOutOfRange" by code_simp
  moreover have "write_graph [0, 1, 2] 3
     = Inr ([[0, 1, 1], [1, 0, 1], [1, 1, 0]], [[0, 1, 1], [1, 0, 1], [1, 1, 0]])"
    by code_simp
  ultimately show ?thesis by simp
qed

end
